theory Spec2Isabelle
  imports Main
begin

section \<open>Python values, exceptions and list objects\<close>

text \<open>
  The container of \<^verbatim>\<open>asyncioList/AsyncioList.py\<close> holds a reference to a Python list
  object, a lock and an event. List objects live in a store indexed by addresses, so that
  copying a list (a new object) and mutating one in place (the same object) are different
  things in the model, as they are in Python. Indices are Python integers, modelled as
  mathematical integers; where a method of the built-in list converts its index argument
  to a machine index (\<^verbatim>\<open>Py_ssize_t\<close>, 64 bits), an integer that does not fit raises
  OverflowError.
\<close>

type_synonym addr = nat

datatype error =
    TypeError
  | IndexError
  | ValueError
  | OverflowError
  | RuntimeError
  | TimeoutError
  | AsyncioListError
  | IndexOutOfBoundsError

datatype 'a val =
    VNone
  | VSelf
  | VItem 'a
  | VInt int
  | VBool bool
  | VList addr

text \<open>What a caller can pass as \<^verbatim>\<open>initial_list\<close>: \<^verbatim>\<open>None\<close>, a reference to a list
  object, or a value of another Python type.\<close>

datatype 'a py_arg =
    PyNone
  | PyList addr
  | PyTuple "'a list"
  | PyInt int
  | PyStr string
  | PyBool bool
  | PyDict "('a \<times> 'a) list"

fun isinstance_list :: "'a py_arg \<Rightarrow> bool" where
  "isinstance_list (PyList a) = True"
| "isinstance_list _ = False"

subsection \<open>The methods of the built-in list\<close>

text \<open>The integers that fit a machine index.\<close>

definition fits_ssize :: "int \<Rightarrow> bool" where
  "fits_ssize i = (- (2 ^ 63) \<le> i \<and> i < 2 ^ 63)"

text \<open>\<^verbatim>\<open>list.insert(index, item)\<close>: the index is converted to a machine index first
  (OverflowError when it does not fit); then a negative index counts from the end, and
  an index beyond either end is clamped to that end. It never raises IndexError.\<close>

definition list_insert :: "int \<Rightarrow> 'a \<Rightarrow> 'a list \<Rightarrow> error + 'a list" where
  "list_insert index item xs =
     (if \<not> fits_ssize index then Inl OverflowError
      else
        (let n = int (length xs);
             w = (if index < 0 then (if index + n < 0 then 0 else index + n) else index);
             w' = (if w > n then n else w)
         in Inr (take (nat w') xs @ item # drop (nat w') xs)))"

text \<open>\<^verbatim>\<open>list.pop(index)\<close>: the index is converted to a machine index first
  (OverflowError when it does not fit); then IndexError on the empty list and on an index
  out of range.\<close>

definition list_pop :: "int \<Rightarrow> 'a list \<Rightarrow> error + ('a \<times> 'a list)" where
  "list_pop index xs =
     (if \<not> fits_ssize index then Inl OverflowError
      else
        (let n = int (length xs) in
         if n = 0 then Inl IndexError
         else
           (let i = (if index < 0 then index + n else index) in
            if i < 0 \<or> i \<ge> n then Inl IndexError
            else Inr (xs ! nat i, take (nat i) xs @ drop (Suc (nat i)) xs))))"

text \<open>\<^verbatim>\<open>list.remove(item)\<close>: deletes the first element equal to the item, ValueError
  when there is none.\<close>

fun list_remove :: "'a \<Rightarrow> 'a list \<Rightarrow> error + 'a list" where
  "list_remove item [] = Inl ValueError"
| "list_remove item (x # xs) =
     (if x = item then Inr xs
      else (case list_remove item xs of Inl e \<Rightarrow> Inl e | Inr ys \<Rightarrow> Inr (x # ys)))"

text \<open>\<^verbatim>\<open>list.index(item, start, stop)\<close>: both bounds are normalised as slice bounds are;
  no \<^verbatim>\<open>stop\<close> means the end of the list.\<close>

definition norm_bound :: "int \<Rightarrow> int \<Rightarrow> int" where
  "norm_bound n b = (if b < 0 then (if b + n < 0 then 0 else b + n) else b)"

definition list_index :: "'a \<Rightarrow> int \<Rightarrow> int option \<Rightarrow> 'a list \<Rightarrow> error + int" where
  "list_index item start stop xs =
     (let n = int (length xs);
          lo = norm_bound n start;
          hi = (case stop of None \<Rightarrow> n | Some e \<Rightarrow> min (norm_bound n e) n)
      in case find (\<lambda>i. xs ! i = item) [nat lo ..< nat hi] of
           None \<Rightarrow> Inl ValueError
         | Some i \<Rightarrow> Inr (int i))"

text \<open>\<^verbatim>\<open>xs[start:stop:step]\<close>: a zero step is a ValueError; the bounds are adjusted to
  the length, and the selected positions are \<^verbatim>\<open>start, start + step, ...\<close>.\<close>

definition adjust_bound :: "int \<Rightarrow> int \<Rightarrow> int \<Rightarrow> int" where
  "adjust_bound n step b =
     (if b < 0 then (if b + n < 0 then (if step < 0 then -1 else 0) else b + n)
      else if b \<ge> n then (if step < 0 then n - 1 else n)
      else b)"

definition slice_length :: "int \<Rightarrow> int \<Rightarrow> int \<Rightarrow> nat" where
  "slice_length start stop step =
     (if step < 0 then (if stop < start then nat ((start - stop - 1) div (- step) + 1) else 0)
      else (if start < stop then nat ((stop - start - 1) div step + 1) else 0))"

definition list_slice :: "int \<Rightarrow> int \<Rightarrow> int \<Rightarrow> 'a list \<Rightarrow> error + 'a list" where
  "list_slice start stop step xs =
     (if step = 0 then Inl ValueError
      else
        (let n = int (length xs);
             lo = adjust_bound n step start;
             hi = adjust_bound n step stop
         in Inr (map (\<lambda>k. xs ! nat (lo + int k * step)) [0 ..< slice_length lo hi step])))"

text \<open>\<^verbatim>\<open>list.sort(key=..., reverse=...)\<close>: a stable sort by key; with \<^verbatim>\<open>reverse\<close> the
  list is reversed, sorted and reversed again, which keeps equal elements in their
  original order.\<close>

definition list_sort :: "('a \<Rightarrow> 'k::linorder) \<Rightarrow> bool \<Rightarrow> 'a list \<Rightarrow> 'a list" where
  "list_sort key reverse xs =
     (if reverse then rev (sort_key key (rev xs)) else sort_key key xs)"

section \<open>The container\<close>

record 'a heap =
  store :: "addr \<Rightarrow> 'a list"
  fresh :: addr

record 'a asyncio_list = "'a heap" +
  items :: addr
  lock_held :: bool
  change_event :: bool

type_synonym 'a ret = "(error + 'a val) \<times> 'a asyncio_list"

text \<open>Creating a new list object.\<close>

definition alloc :: "'a list \<Rightarrow> 'a asyncio_list \<Rightarrow> addr \<times> 'a asyncio_list" where
  "alloc xs s = (fresh s, s\<lparr>store := (store s)(fresh s := xs), fresh := Suc (fresh s)\<rparr>)"

text \<open>The list \<^verbatim>\<open>self._items\<close> refers to, and its mutation in place.\<close>

definition items_of :: "'a asyncio_list \<Rightarrow> 'a list" where
  "items_of s = store s (items s)"

definition set_items :: "'a list \<Rightarrow> 'a asyncio_list \<Rightarrow> 'a asyncio_list" where
  "set_items xs s = s\<lparr>store := (store s)(items s := xs)\<rparr>"

text \<open>\<^verbatim>\<open>async with self._lock:\<close> a caller that finds the lock held is suspended (no
  result); otherwise the body runs with the lock, which is released on return and on an
  exception alike.\<close>

definition with_lock ::
  "('a asyncio_list \<Rightarrow> 'r \<times> 'a asyncio_list) \<Rightarrow> 'a asyncio_list \<Rightarrow>
     ('r \<times> 'a asyncio_list) option" where
  "with_lock body s =
     (if lock_held s then None
      else (case body (s\<lparr>lock_held := True\<rparr>) of
              (r, s') \<Rightarrow> Some (r, s'\<lparr>lock_held := False\<rparr>)))"

text \<open>\<^verbatim>\<open>self._change_event.set()\<close> and the guarded form
  \<^verbatim>\<open>if not self._change_event.is_set(): self._change_event.set()\<close>.\<close>

definition event_set :: "'a asyncio_list \<Rightarrow> 'a asyncio_list" where
  "event_set s = s\<lparr>change_event := True\<rparr>"

definition event_set_if_clear :: "'a asyncio_list \<Rightarrow> 'a asyncio_list" where
  "event_set_if_clear s = (if \<not> change_event s then event_set s else s)"

text \<open>\<^verbatim>\<open>except E as e: raise E' from e\<close>\<close>

definition reraise :: "error \<Rightarrow> error \<Rightarrow> error \<Rightarrow> error" where
  "reraise caught raised e = (if e = caught then raised else e)"

subsection \<open>Construction\<close>

definition init :: "'a heap \<Rightarrow> 'a py_arg \<Rightarrow> error + 'a asyncio_list" where
  "init h initial_list =
     (if initial_list \<noteq> PyNone \<and> \<not> isinstance_list initial_list then Inl TypeError
      else
        (let xs = (case initial_list of PyList a \<Rightarrow> store h a | _ \<Rightarrow> [])
         in Inr \<lparr>store = (store h)(fresh h := xs), fresh = Suc (fresh h),
                 items = fresh h, lock_held = False, change_event = False\<rparr>))"

subsection \<open>Operations\<close>

definition length_al :: "'a asyncio_list \<Rightarrow> 'a ret option" where
  "length_al = with_lock (\<lambda>s. (Inr (VInt (int (length (items_of s)))), s))"

definition is_empty :: "'a asyncio_list \<Rightarrow> 'a ret option" where
  "is_empty s =
     (case length_al s of
        None \<Rightarrow> None
      | Some (Inl e, s') \<Rightarrow> Some (Inl e, s')
      | Some (Inr v, s') \<Rightarrow> Some (Inr (VBool (v = VInt 0)), s'))"

definition append_al :: "'a \<Rightarrow> 'a asyncio_list \<Rightarrow> 'a ret option" where
  "append_al item =
     with_lock (\<lambda>s. (Inr VSelf, event_set_if_clear (set_items (items_of s @ [item]) s)))"

definition extend :: "'a list \<Rightarrow> 'a asyncio_list \<Rightarrow> 'a ret option" where
  "extend its s =
     (if its = [] then Some (Inr VNone, s)
      else with_lock (\<lambda>s. (Inr VNone, event_set (set_items (items_of s @ its) s))) s)"

definition insert_al :: "int \<Rightarrow> 'a \<Rightarrow> 'a asyncio_list \<Rightarrow> 'a ret option" where
  "insert_al index item =
     with_lock (\<lambda>s.
       case list_insert index item (items_of s) of
         Inl e \<Rightarrow> (Inl (reraise IndexError IndexOutOfBoundsError e), s)
       | Inr xs \<Rightarrow> (Inr VNone, event_set (set_items xs s)))"

definition remove_al :: "'a \<Rightarrow> 'a asyncio_list \<Rightarrow> 'a ret option" where
  "remove_al item =
     with_lock (\<lambda>s.
       case list_remove item (items_of s) of
         Inl e \<Rightarrow> (Inl (reraise ValueError AsyncioListError e), s)
       | Inr xs \<Rightarrow> (Inr VNone, event_set (set_items xs s)))"

definition pop :: "int \<Rightarrow> 'a asyncio_list \<Rightarrow> 'a ret option" where
  "pop index =
     with_lock (\<lambda>s.
       case list_pop index (items_of s) of
         Inl e \<Rightarrow> (Inl (reraise IndexError IndexOutOfBoundsError e), s)
       | Inr (result, xs) \<Rightarrow> (Inr (VItem result), event_set_if_clear (set_items xs s)))"


definition clear :: "'a asyncio_list \<Rightarrow> 'a ret option" where
  "clear = with_lock (\<lambda>s. (Inr VNone, event_set (set_items [] s)))"

definition index :: "'a \<Rightarrow> int \<Rightarrow> int option \<Rightarrow> 'a asyncio_list \<Rightarrow> 'a ret option" where
  "index item start end =
     with_lock (\<lambda>s.
       case list_index item start end (items_of s) of
         Inl e \<Rightarrow> (Inl (reraise ValueError AsyncioListError e), s)
       | Inr i \<Rightarrow> (Inr (VInt i), s))"

definition count :: "'a \<Rightarrow> 'a asyncio_list \<Rightarrow> 'a ret option" where
  "count item = with_lock (\<lambda>s. (Inr (VInt (int (count_list (items_of s) item))), s))"

definition contains :: "'a \<Rightarrow> 'a asyncio_list \<Rightarrow> 'a ret option" where
  "contains item = with_lock (\<lambda>s. (Inr (VBool (item \<in> set (items_of s))), s))"

definition slice :: "int \<Rightarrow> int \<Rightarrow> int \<Rightarrow> 'a asyncio_list \<Rightarrow> 'a ret option" where
  "slice start stop step =
     with_lock (\<lambda>s.
       case list_slice start stop step (items_of s) of
         Inl e \<Rightarrow> (Inl e, s)
       | Inr ys \<Rightarrow> (case alloc ys s of (a, s') \<Rightarrow> (Inr (VList a), s')))"

definition reverse :: "'a asyncio_list \<Rightarrow> 'a ret option" where
  "reverse = with_lock (\<lambda>s. (Inr VSelf, event_set (set_items (rev (items_of s)) s)))"

definition sort_al ::
  "('a \<Rightarrow> 'k::linorder) \<Rightarrow> bool \<Rightarrow> 'a asyncio_list \<Rightarrow> 'a ret option" where
  "sort_al key rv =
     with_lock (\<lambda>s. (Inr VSelf, event_set (set_items (list_sort key rv (items_of s)) s)))"

definition get :: "int \<Rightarrow> 'a asyncio_list \<Rightarrow> 'a ret option" where
  "get idx =
     with_lock (\<lambda>s.
       if idx < 0 \<or> idx \<ge> int (length (items_of s)) then (Inl IndexOutOfBoundsError, s)
       else (Inr (VItem (items_of s ! nat idx)), s))"

text \<open>\<^verbatim>\<open>delete_all\<close> builds a new list object and rebinds \<^verbatim>\<open>self._items\<close> to it.\<close>

definition delete_all :: "'a \<Rightarrow> 'a asyncio_list \<Rightarrow> 'a ret option" where
  "delete_all item =
     with_lock (\<lambda>s.
       case alloc [i \<leftarrow> items_of s. i \<noteq> item] s of
         (a, s') \<Rightarrow> (Inr VNone, event_set (s'\<lparr>items := a\<rparr>)))"

subsection \<open>Scoped exclusive access\<close>

text \<open>\<^verbatim>\<open>__aenter__\<close> waits for the lock and keeps it; \<^verbatim>\<open>__aexit__\<close> releases it
  (a RuntimeError of the lock when it is not held) and then sets the event. Between the
  two the caller works on the list object itself.\<close>

definition aenter :: "'a asyncio_list \<Rightarrow> 'a ret option" where
  "aenter s = (if lock_held s then None else Some (Inr VSelf, s\<lparr>lock_held := True\<rparr>))"

definition aexit :: "'a asyncio_list \<Rightarrow> 'a ret" where
  "aexit s =
     (if \<not> lock_held s then (Inl RuntimeError, s)
      else (Inr VNone, event_set (s\<lparr>lock_held := False\<rparr>)))"

text \<open>\<^verbatim>\<open>async with lst: body\<close> where the body works on \<^verbatim>\<open>lst._items\<close> in place and
  may raise: \<^verbatim>\<open>__aexit__\<close> runs on both exits and lets an exception of the body pass.\<close>

definition scoped ::
  "('a list \<Rightarrow> (error + 'a val) \<times> 'a list) \<Rightarrow> 'a asyncio_list \<Rightarrow> 'a ret option" where
  "scoped body s =
     (case aenter s of
        None \<Rightarrow> None
      | Some (Inl e, s1) \<Rightarrow> Some (Inl e, s1)
      | Some (Inr _, s1) \<Rightarrow>
          (case body (items_of s1) of
             (r, xs) \<Rightarrow>
               (case aexit (set_items xs s1) of
                  (Inl e, s2) \<Rightarrow> Some (Inl e, s2)
                | (Inr _, s2) \<Rightarrow> Some (r, s2))))"

subsection \<open>Asynchronous iteration\<close>

text \<open>The asynchronous generator of \<^verbatim>\<open>__aiter__\<close>. Its first step takes the lock, copies
  the list into a new list object and releases the lock; every step then reads the next
  position of that copy, outside the lock. A step yields an element or ends the iteration.\<close>

datatype aiter_state = NotStarted | Iterating addr nat | Finished

definition fetch ::
  "addr \<Rightarrow> nat \<Rightarrow> 'a asyncio_list \<Rightarrow> 'a option \<times> aiter_state \<times> 'a asyncio_list" where
  "fetch a k s =
     (if k < length (store s a) then (Some (store s a ! k), Iterating a (Suc k), s)
      else (None, Finished, s))"

definition anext ::
  "aiter_state \<Rightarrow> 'a asyncio_list \<Rightarrow> ('a option \<times> aiter_state \<times> 'a asyncio_list) option" where
  "anext g s =
     (case g of
        NotStarted \<Rightarrow>
          (case with_lock (\<lambda>s. alloc (items_of s) s) s of
             None \<Rightarrow> None
           | Some (a, s') \<Rightarrow> Some (fetch a 0 s'))
      | Iterating a k \<Rightarrow> Some (fetch a k s)
      | Finished \<Rightarrow> Some (None, Finished, s))"

subsection \<open>The operations of other tasks\<close>

text \<open>What another task can do to the container between two steps of the task under
  study: any method, entering and leaving a scoped block, and work on the list object
  itself. A task that finds the lock held stays suspended and changes nothing.\<close>

datatype ('a, 'k) op =
    Append 'a
  | Extend "'a list"
  | Insert int 'a
  | Remove 'a
  | Pop int
  | Clear
  | Index 'a int "int option"
  | Count 'a
  | Contains 'a
  | Slice int int int
  | Reverse
  | Sort "'a \<Rightarrow> 'k" bool
  | Get int
  | Length
  | IsEmpty
  | DeleteAll 'a
  | AEnter
  | AExit
  | Raw "'a list \<Rightarrow> 'a list"

fun run :: "('a, 'k::linorder) op \<Rightarrow> 'a asyncio_list \<Rightarrow> 'a ret option" where
  "run (Append x) s = append_al x s"
| "run (Extend xs) s = extend xs s"
| "run (Insert i x) s = insert_al i x s"
| "run (Remove x) s = remove_al x s"
| "run (Pop i) s = pop i s"
| "run Clear s = clear s"
| "run (Index x b e) s = index x b e s"
| "run (Count x) s = count x s"
| "run (Contains x) s = contains x s"
| "run (Slice b e st) s = slice b e st s"
| "run Reverse s = reverse s"
| "run (Sort key rv) s = sort_al key rv s"
| "run (Get i) s = get i s"
| "run Length s = length_al s"
| "run IsEmpty s = is_empty s"
| "run (DeleteAll x) s = delete_all x s"
| "run AEnter s = aenter s"
| "run AExit s = Some (aexit s)"
| "run (Raw f) s = Some (Inr VNone, set_items (f (items_of s)) s)"

definition apply_op :: "('a, 'k::linorder) op \<Rightarrow> 'a asyncio_list \<Rightarrow> 'a asyncio_list" where
  "apply_op a s = (case run a s of None \<Rightarrow> s | Some (r, s') \<Rightarrow> s')"

definition apply_ops :: "('a, 'k::linorder) op list \<Rightarrow> 'a asyncio_list \<Rightarrow> 'a asyncio_list" where
  "apply_ops as s = fold apply_op as s"

text \<open>The operations the specification calls mutating and read-only.\<close>

fun mutating :: "('a, 'k) op \<Rightarrow> bool" where
  "mutating (Append x) = True"
| "mutating (Extend xs) = (xs \<noteq> [])"
| "mutating (Insert i x) = True"
| "mutating (Remove x) = True"
| "mutating (Pop i) = True"
| "mutating Clear = True"
| "mutating Reverse = True"
| "mutating (Sort key rv) = True"
| "mutating (DeleteAll x) = True"
| "mutating _ = False"

text \<open>When a mutating operation does not raise: \<^verbatim>\<open>insert\<close> needs an index that fits a
  machine index, \<^verbatim>\<open>remove\<close> an element equal to the item, \<^verbatim>\<open>pop\<close> an index that fits
  and is valid for the length; the others never raise.\<close>

fun succeeds_on :: "('a, 'k) op \<Rightarrow> 'a asyncio_list \<Rightarrow> bool" where
  "succeeds_on (Insert i x) s = fits_ssize i"
| "succeeds_on (Remove x) s = (x \<in> set (items_of s))"
| "succeeds_on (Pop i) s =
     (fits_ssize i \<and> - int (length (items_of s)) \<le> i \<and> i < int (length (items_of s)))"
| "succeeds_on _ s = True"

fun read_only :: "('a, 'k) op \<Rightarrow> bool" where
  "read_only (Get i) = True"
| "read_only Length = True"
| "read_only (Count x) = True"
| "read_only (Contains x) = True"
| "read_only (Index x b e) = True"
| "read_only (Slice b e st) = True"
| "read_only IsEmpty = True"
| "read_only _ = False"

text \<open>A consumer drives the generator to its end while other tasks run: \<open>sched\<close> gives,
  for each step, the operations of the other tasks that run after it. The result is the
  list of the elements yielded.\<close>

fun aiter_run ::
  "aiter_state \<Rightarrow> ('a, 'k::linorder) op list list \<Rightarrow> 'a asyncio_list \<Rightarrow>
     ('a list \<times> 'a asyncio_list) option" where
  "aiter_run g [] s = None"
| "aiter_run g (others # sched) s =
     (case anext g s of
        None \<Rightarrow> None
      | Some (None, g', s') \<Rightarrow> Some ([], s')
      | Some (Some x, g', s') \<Rightarrow>
          (case aiter_run g' sched (apply_ops others s') of
             None \<Rightarrow> None
           | Some (xs, s'') \<Rightarrow> Some (x # xs, s'')))"

subsection \<open>Waiting for a change\<close>

text \<open>
  \<^verbatim>\<open>asyncio.wait_for(self._change_event.wait(), timeout)\<close>. Time is counted in turns
  of the other tasks: \<open>turns\<close> lists the operations they perform while the caller waits,
  one per unit of time, and the timeout is a number of units (\<open>None\<close>: no timeout).
  With a timeout that is zero or negative, \<^verbatim>\<open>wait_for\<close> raises TimeoutError without
  starting the wait. Otherwise the wait returns as soon as the event is set, and
  TimeoutError is raised when the timeout has run out first. A wait without timeout
  on an event that nobody sets does not return.
\<close>

fun event_wait ::
  "int option \<Rightarrow> ('a, 'k::linorder) op list \<Rightarrow> 'a asyncio_list \<Rightarrow>
     ((error + bool) \<times> ('a, 'k) op list \<times> 'a asyncio_list) option" where
  "event_wait t [] s =
     (if change_event s then Some (Inr True, [], s)
      else (case t of None \<Rightarrow> None | Some d \<Rightarrow> Some (Inl TimeoutError, [], s)))"
| "event_wait t (a # turns) s =
     (if change_event s then Some (Inr True, a # turns, s)
      else (case t of
              None \<Rightarrow> event_wait None turns (apply_op a s)
            | Some d \<Rightarrow>
                (if d \<le> 0 then Some (Inl TimeoutError, a # turns, s)
                 else event_wait (Some (d - 1)) turns (apply_op a s))))"

definition wait_for ::
  "int option \<Rightarrow> ('a, 'k::linorder) op list \<Rightarrow> 'a asyncio_list \<Rightarrow>
     ((error + bool) \<times> ('a, 'k) op list \<times> 'a asyncio_list) option" where
  "wait_for timeout turns s =
     (case timeout of
        None \<Rightarrow> event_wait None turns s
      | Some d \<Rightarrow>
          (if d \<le> 0 then Some (Inl TimeoutError, turns, s)
           else event_wait (Some d) turns s))"

definition event_clear :: "'a asyncio_list \<Rightarrow> 'a asyncio_list" where
  "event_clear s = s\<lparr>change_event := False\<rparr>"

text \<open>\<^verbatim>\<open>wait_for_change\<close>: True when the wait returned, False when it raised
  TimeoutError; any other exception passes. The \<^verbatim>\<open>finally\<close> clause clears the event
  on every exit. The result holds the turns that are left and the state at the return.\<close>

definition wait_for_change ::
  "int option \<Rightarrow> ('a, 'k::linorder) op list \<Rightarrow> 'a asyncio_list \<Rightarrow>
     ((error + 'a val) \<times> ('a, 'k) op list \<times> 'a asyncio_list) option" where
  "wait_for_change timeout turns s =
     (case wait_for timeout turns s of
        None \<Rightarrow> None
      | Some (Inr b, rest, s') \<Rightarrow> Some (Inr (VBool True), rest, event_clear s')
      | Some (Inl e, rest, s') \<Rightarrow>
          (if e = TimeoutError then Some (Inr (VBool False), rest, event_clear s')
           else Some (Inl e, rest, event_clear s')))"

subsection \<open>Callers\<close>

text \<open>\<^verbatim>\<open>AsyncioList(xs)\<close> for a list object \<open>xs\<close> at address 0 of an otherwise empty
  store: the container holds its own copy, at address 1.\<close>

definition container_of :: "'a list \<Rightarrow> 'a asyncio_list" where
  "container_of xs =
     \<lparr>store = (\<lambda>a. [])(0 := xs, 1 := xs), fresh = 2, items = 1,
      lock_held = False, change_event = False\<rparr>"


section \<open>Basic facts\<close>

lemma items_of_lock [simp]: "items_of (s\<lparr>lock_held := b\<rparr>) = items_of s"
  by (simp add: items_of_def)

lemma items_of_event [simp]: "items_of (s\<lparr>change_event := b\<rparr>) = items_of s"
  by (simp add: items_of_def)

lemma items_of_set_items [simp]: "items_of (set_items xs s) = xs"
  by (simp add: items_of_def set_items_def)

lemma items_of_event_set [simp]: "items_of (event_set s) = items_of s"
  by (simp add: event_set_def)

lemma items_of_event_set_if_clear [simp]: "items_of (event_set_if_clear s) = items_of s"
  by (simp add: event_set_if_clear_def)

lemma change_event_event_set [simp]: "change_event (event_set s)"
  by (simp add: event_set_def)

lemma change_event_event_set_if_clear [simp]: "change_event (event_set_if_clear s)"
  by (simp add: event_set_if_clear_def event_set_def)

section \<open>Insertion\<close>

text \<open>On a free lock \<^verbatim>\<open>insert\<close> returns normally for every index that fits a machine
  index, and raises OverflowError, with the state as it was, for the others; with an
  index in \<open>[0, n]\<close> the item ends at that position, the later elements one place
  further.\<close>

lemma insert_in_range:
  "\<not> lock_held s \<Longrightarrow> fits_ssize i \<Longrightarrow> 0 \<le> i \<Longrightarrow> i \<le> int (length (items_of s)) \<Longrightarrow>
   \<exists>s'. insert_al i x s = Some (Inr VNone, s') \<and>
        items_of s' = take (nat i) (items_of s) @ x # drop (nat i) (items_of s) \<and>
        items_of s' ! nat i = x \<and> change_event s'"
  by (simp add: insert_al_def with_lock_def list_insert_def nth_append)

lemma insert_returns:
  "\<not> lock_held s \<Longrightarrow> fits_ssize i \<Longrightarrow>
   \<exists>s'. insert_al i x s = Some (Inr VNone, s') \<and> change_event s'"
  by (simp add: insert_al_def with_lock_def list_insert_def Let_def)

lemma insert_overflow:
  "\<not> lock_held s \<Longrightarrow> \<not> fits_ssize i \<Longrightarrow> insert_al i x s = Some (Inl OverflowError, s)"
  by (simp add: insert_al_def with_lock_def list_insert_def reraise_def)

text \<open>
  C1, evaluated where the claim fails. On the sequence \<open>[1, 2, 3]\<close> the index 10 lies
  outside \<open>[0, 3]\<close>; \<^verbatim>\<open>insert\<close> does not fail with IndexOutOfBoundsError there but
  returns normally, having put the item at the end, and sets the change signal. The
  handler for IndexError in \<^verbatim>\<open>insert\<close> is never reached, because the insertion of the
  built-in list clamps the index.
\<close>

theorem insert_out_of_range_returns:
  "insert_al 10 9
     \<lparr>store = (\<lambda>a. [])(0 := [1, 2, 3 :: int]), fresh = 1, items = 0,
      lock_held = False, change_event = False\<rparr>
   = Some (Inr VNone,
     \<lparr>store = (\<lambda>a. [])(0 := [1, 2, 3, 9]), fresh = 1, items = 0,
      lock_held = False, change_event = True\<rparr>)"
  by (simp add: insert_al_def with_lock_def list_insert_def fits_ssize_def items_of_def
      set_items_def event_set_def)

section \<open>Removal by value\<close>

lemma init_container_of:
  "init \<lparr>store = (\<lambda>a. [])(0 := xs), fresh = 1\<rparr> (PyList 0) = Inr (container_of xs)"
  by (simp add: init_def container_of_def)

lemma container_of_free: "\<not> lock_held (container_of xs)"
  by (simp add: container_of_def)

lemma items_of_container_of: "items_of (container_of xs) = xs"
  by (simp add: container_of_def items_of_def)


lemma list_remove_found:
  "item \<in> set xs \<Longrightarrow>
   \<exists>ys zs. xs = ys @ item # zs \<and> item \<notin> set ys \<and> list_remove item xs = Inr (ys @ zs)"
proof (induction xs)
  case Nil
  then show ?case by simp
next
  case (Cons x xs)
  show ?case
  proof (cases "x = item")
    case True
    then have "x # xs = [] @ item # xs \<and> item \<notin> set [] \<and> list_remove item (x # xs) = Inr ([] @ xs)"
      by simp
    then show ?thesis by blast
  next
    case False
    with Cons.prems have "item \<in> set xs" by simp
    from Cons.IH [OF this] obtain ys zs where
      h: "xs = ys @ item # zs" "item \<notin> set ys" "list_remove item xs = Inr (ys @ zs)"
      by blast
    from h False have
      "x # xs = (x # ys) @ item # zs \<and> item \<notin> set (x # ys) \<and>
       list_remove item (x # xs) = Inr ((x # ys) @ zs)"
      by auto
    then show ?thesis by blast
  qed
qed



section \<open>Removal by position\<close>

lemma list_pop_in_range:
  "fits_ssize i \<Longrightarrow> - int (length xs) \<le> i \<Longrightarrow> i < int (length xs) \<Longrightarrow>
   list_pop i xs =
     Inr (xs ! nat (if i < 0 then i + int (length xs) else i),
          take (nat (if i < 0 then i + int (length xs) else i)) xs @
          drop (Suc (nat (if i < 0 then i + int (length xs) else i))) xs)"
  by (auto simp: list_pop_def Let_def)


lemma list_pop_overflow: "\<not> fits_ssize i \<Longrightarrow> list_pop i xs = Inl OverflowError"
  by (simp add: list_pop_def)


lemma pop_ok:
  "\<not> lock_held s \<Longrightarrow> list_pop i (items_of s) = Inr (x, xs) \<Longrightarrow>
   \<exists>s'. pop i s = Some (Inr (VItem x), s') \<and> items_of s' = xs \<and> change_event s' \<and>
        \<not> lock_held s' \<and> items s' = items s"
  by (simp add: pop_def with_lock_def event_set_if_clear_def event_set_def set_items_def
      items_of_def)


lemma pop_overflow:
  "\<not> lock_held s \<Longrightarrow> \<not> fits_ssize i \<Longrightarrow> pop i s = Some (Inl OverflowError, s)"
  by (simp add: pop_def with_lock_def reraise_def list_pop_overflow)










section \<open>Removal of every occurrence\<close>

text \<open>
  C8. On a free lock, \<^verbatim>\<open>delete_all(item)\<close> returns normally, leaves the elements
  different from the item in their order (none equal to the item is left), and sets the
  change signal; when the item does not occur the sequence keeps its contents and the
  signal is set all the same.
\<close>

theorem delete_all_removes_every_occurrence:
  "\<not> lock_held s \<Longrightarrow>
   (\<exists>s'. delete_all item s = Some (Inr VNone, s') \<and>
         items_of s' = filter (\<lambda>x. x \<noteq> item) (items_of s) \<and>
         item \<notin> set (items_of s') \<and>
         (item \<notin> set (items_of s) \<longrightarrow> items_of s' = items_of s) \<and>
         change_event s')"
proof -
  assume free: "\<not> lock_held s"
  let ?s' = "(event_set ((snd (alloc (filter (\<lambda>x. x \<noteq> item) (items_of s))
                 (s\<lparr>lock_held := True\<rparr>)))\<lparr>items := fresh s\<rparr>))\<lparr>lock_held := False\<rparr>"
  from free have run: "delete_all item s = Some (Inr VNone, ?s')"
    by (simp add: delete_all_def with_lock_def alloc_def)
  have xs: "items_of ?s' = filter (\<lambda>x. x \<noteq> item) (items_of s)"
    by (simp add: items_of_def alloc_def event_set_def)
  have ev: "change_event ?s'"
    by (simp add: event_set_def)
  have eq: "item \<notin> set (items_of s) \<longrightarrow> filter (\<lambda>x. x \<noteq> item) (items_of s) = items_of s"
    by (auto simp: filter_id_conv)
  have "item \<notin> set (filter (\<lambda>x. x \<noteq> item) (items_of s))" by simp
  with run xs ev eq show ?thesis by metis
qed

theorem delete_all_removes_every_occurrence_witness:
  "\<not> lock_held (container_of [1, 2, 1, 1 :: int]) \<and>
   (\<exists>s'. delete_all 1 (container_of [1, 2, 1, 1 :: int]) = Some (Inr VNone, s') \<and>
         items_of s' = [2] \<and> change_event s') \<and>
   (\<exists>s'. delete_all 1 (container_of [2 :: int]) = Some (Inr VNone, s') \<and>
         items_of s' = [2] \<and> change_event s')"
proof -
  from delete_all_removes_every_occurrence [OF container_of_free, of 1 "[1, 2, 1, 1 :: int]"]
  have a: "\<exists>s'. delete_all 1 (container_of [1, 2, 1, 1 :: int]) = Some (Inr VNone, s') \<and>
         items_of s' = [2] \<and> change_event s'"
    by (auto simp: items_of_container_of)
  from delete_all_removes_every_occurrence [OF container_of_free, of 1 "[2 :: int]"]
  have b: "\<exists>s'. delete_all 1 (container_of [2 :: int]) = Some (Inr VNone, s') \<and>
         items_of s' = [2] \<and> change_event s'"
    by (auto simp: items_of_container_of)
  from container_of_free a b show ?thesis by blast
qed

section \<open>Extension\<close>

text \<open>
  C9. \<^verbatim>\<open>extend\<close> with a non-empty list, on a free lock, appends its elements in order
  and sets the change signal; on a held lock it waits. \<^verbatim>\<open>extend\<close> with the empty list
  returns at once with the state as it was, whether the lock is held or not: it does not
  take the lock, and the sequence and the signal are unchanged.
\<close>

theorem extend_appends_or_returns:
  "(its \<noteq> [] \<and> \<not> lock_held s \<longrightarrow>
      (\<exists>s'. extend its s = Some (Inr VNone, s') \<and> items_of s' = items_of s @ its \<and>
            change_event s')) \<and>
   (its \<noteq> [] \<and> lock_held s \<longrightarrow> extend its s = None) \<and>
   extend [] s = Some (Inr VNone, s)"
  by (simp add: extend_def with_lock_def)

theorem extend_appends_or_returns_witness:
  "(\<exists>s'. extend [4, 5] (container_of [1, 2, 3 :: int]) = Some (Inr VNone, s') \<and>
         items_of s' = [1, 2, 3, 4, 5] \<and> change_event s') \<and>
   extend [4, 5] ((container_of [1, 2, 3 :: int])\<lparr>lock_held := True\<rparr>) = None \<and>
   extend [] ((container_of [1, 2, 3 :: int])\<lparr>lock_held := True\<rparr>)
     = Some (Inr VNone, (container_of [1, 2, 3])\<lparr>lock_held := True\<rparr>)"
  using extend_appends_or_returns [of "[4, 5 :: int]" "container_of [1, 2, 3]"]
    extend_appends_or_returns [of "[4, 5 :: int]" "(container_of [1, 2, 3])\<lparr>lock_held := True\<rparr>"]
  by (simp add: items_of_container_of container_of_free)

section \<open>Construction\<close>

text \<open>
  C5. Without an argument the container is empty. With a reference to an existing list
  object the container gets a new list object with the same contents: a later change of
  the caller's list does not change the container, nor the converse. Every argument that
  is neither \<^verbatim>\<open>None\<close> nor a list is refused with TypeError (the InvalidArgument kind of
  the specification).
\<close>

theorem init_copies_or_rejects:
  "(\<exists>s. init h PyNone = Inr s \<and> items_of s = [] \<and> \<not> lock_held s \<and> \<not> change_event s) \<and>
   (a < fresh h \<longrightarrow>
      (\<exists>s. init h (PyList a) = Inr s \<and> items_of s = store h a \<and> items s \<noteq> a \<and>
           (\<forall>ys. items_of (s\<lparr>store := (store s)(a := ys)\<rparr>) = store h a) \<and>
           (\<forall>ys. store (set_items ys s) a = store h a))) \<and>
   (arg \<noteq> PyNone \<and> \<not> isinstance_list arg \<longrightarrow> init h arg = Inl TypeError)"
  by (auto simp: init_def items_of_def set_items_def)

theorem init_copies_or_rejects_witness:
  "(\<exists>s. init \<lparr>store = (\<lambda>a. [])(0 := [1, 2, 3 :: int]), fresh = 1\<rparr> (PyList 0) = Inr s \<and>
        items_of s = [1, 2, 3] \<and> items s \<noteq> 0 \<and>
        items_of (s\<lparr>store := (store s)(0 := [7])\<rparr>) = [1, 2, 3] \<and>
        store (set_items [7] s) 0 = [1, 2, 3]) \<and>
   init \<lparr>store = (\<lambda>a. [])(0 := [1, 2, 3 :: int]), fresh = 1\<rparr> (PyTuple [1, 2]) = Inl TypeError \<and>
   init \<lparr>store = (\<lambda>a. [])(0 := [1, 2, 3 :: int]), fresh = 1\<rparr> (PyInt 5) = Inl TypeError"
proof -
  let ?h = "\<lparr>store = (\<lambda>a. [])(0 := [1, 2, 3 :: int]), fresh = 1\<rparr>"
  note t = init_copies_or_rejects [of ?h 0 "PyTuple [1, 2]"]
  note u = init_copies_or_rejects [of ?h 0 "PyInt 5"]
  from t obtain s where s: "init ?h (PyList 0) = Inr s" "items_of s = [1, 2, 3]" "items s \<noteq> 0"
     "\<forall>ys. items_of (s\<lparr>store := (store s)(0 := ys)\<rparr>) = [1, 2, 3]"
     "\<forall>ys. store (set_items ys s) 0 = [1, 2, 3]"
    by auto
  then have a: "\<exists>s. init ?h (PyList 0) = Inr s \<and>
        items_of s = [1, 2, 3] \<and> items s \<noteq> 0 \<and>
        items_of (s\<lparr>store := (store s)(0 := [7])\<rparr>) = [1, 2, 3] \<and>
        store (set_items [7] s) 0 = [1, 2, 3]" by blast
  from t have b: "init ?h (PyTuple [1, 2]) = Inl TypeError" by simp
  from u have c: "init ?h (PyInt 5) = Inl TypeError" by simp
  from a b c show ?thesis by blast
qed

section \<open>The change signal\<close>

lemma with_lock_Some:
  "with_lock body s = Some (r, s') \<Longrightarrow>
   \<not> lock_held s \<and> (\<exists>s1. body (s\<lparr>lock_held := True\<rparr>) = (r, s1) \<and> s' = s1\<lparr>lock_held := False\<rparr>)"
  by (auto simp: with_lock_def split: if_splits prod.splits)

lemma mutating_sets_event:
  "mutating a \<Longrightarrow> run a s = Some (Inr v, s') \<Longrightarrow> change_event s'"
  by (cases a)
    (auto simp: append_al_def extend_def insert_al_def remove_al_def pop_def clear_def
      reverse_def sort_al_def delete_all_def alloc_def event_set_def
      dest!: with_lock_Some split: sum.splits prod.splits if_splits)

lemma read_only_keeps_event:
  "read_only a \<Longrightarrow> run a s = Some (r, s') \<Longrightarrow>
   change_event s' = change_event s"
  by (cases a)
    (auto simp: get_def length_al_def is_empty_def count_def contains_def index_def slice_def
      alloc_def items_of_def
      dest!: with_lock_Some split: sum.splits prod.splits if_splits option.splits)

lemma anext_keeps_event:
  "anext g s = Some (y, g', s') \<Longrightarrow> change_event s' = change_event s \<and> items s' = items s"
  by (cases g)
    (auto simp: anext_def fetch_def alloc_def
      dest!: with_lock_Some split: option.splits prod.splits if_splits)

lemma scoped_sets_event: "scoped body s = Some (r, s') \<Longrightarrow> change_event s'"
  by (auto simp: scoped_def aenter_def aexit_def set_items_def event_set_def
      split: if_splits prod.splits sum.splits)

lemma mutating_returns:
  "\<not> lock_held s \<Longrightarrow> mutating a \<Longrightarrow> succeeds_on a s \<Longrightarrow>
   \<exists>v s'. run a s = Some (Inr v, s') \<and> change_event s'"
proof (cases a)
  case (Insert i x)
  assume "\<not> lock_held s" "succeeds_on a s"
  with Insert insert_returns [of s i x] show ?thesis by auto
next
  case (Remove x)
  assume free: "\<not> lock_held s" and "succeeds_on a s"
  with Remove have "x \<in> set (items_of s)" by simp
  from list_remove_found [OF this] obtain ys zs where
    "list_remove x (items_of s) = Inr (ys @ zs)" by blast
  with free Remove show ?thesis
    by (simp add: remove_al_def with_lock_def)
next
  case (Pop i)
  assume free: "\<not> lock_held s" and "succeeds_on a s"
  with Pop list_pop_in_range [of i "items_of s"] obtain x xs where
    "list_pop i (items_of s) = Inr (x, xs)" by auto
  from pop_ok [OF free this] Pop show ?thesis by auto
qed (simp_all add: append_al_def extend_def clear_def reverse_def sort_al_def delete_all_def
      with_lock_def alloc_def)

lemma read_only_returns:
  "\<not> lock_held s \<Longrightarrow> read_only a \<Longrightarrow> \<exists>r s'. run a s = Some (r, s')"
  by (cases a)
    (auto simp: get_def length_al_def is_empty_def count_def contains_def index_def slice_def
      with_lock_def split: sum.splits prod.splits)

lemma anext_returns: "\<not> lock_held s \<Longrightarrow> \<exists>y g' s'. anext g s = Some (y, g', s')"
  by (cases g) (auto simp: anext_def with_lock_def fetch_def split: prod.splits)

lemma scoped_returns: "\<not> lock_held s \<Longrightarrow> \<exists>r s'. scoped body s = Some (r, s')"
  by (auto simp: scoped_def aenter_def aexit_def split: prod.splits sum.splits)

text \<open>
  C2. On a free lock, a mutating operation (\<^verbatim>\<open>append\<close>, \<^verbatim>\<open>extend\<close> of a non-empty list,
  \<^verbatim>\<open>insert\<close>, \<^verbatim>\<open>remove\<close>, \<^verbatim>\<open>pop\<close>, \<^verbatim>\<open>clear\<close>, \<^verbatim>\<open>reverse\<close>, \<^verbatim>\<open>sort\<close>, \<^verbatim>\<open>delete_all\<close>)
  whose argument does not make it raise returns normally with the change signal set, and
  whenever such an operation returns normally the signal is set. A scoped block on a
  free lock runs to its exit and leaves the signal set, also when its body changed
  nothing or raised. A read-only operation (\<^verbatim>\<open>get\<close>, \<^verbatim>\<open>length\<close>, \<^verbatim>\<open>count\<close>, \<^verbatim>\<open>contains\<close>,
  \<^verbatim>\<open>index\<close>, \<^verbatim>\<open>slice\<close>, \<^verbatim>\<open>is_empty\<close>) and a step of the asynchronous iteration complete
  on a free lock and leave the signal as they found it, whatever they return.
\<close>

theorem change_signal_discipline:
  "(\<not> lock_held s \<and> mutating a \<and> succeeds_on a s \<longrightarrow>
      (\<exists>v1 s1. run a s = Some (Inr v1, s1) \<and> change_event s1)) \<and>
   (mutating a \<and> run a s = Some (Inr v, s') \<longrightarrow> change_event s') \<and>
   (\<not> lock_held s \<and> read_only a \<longrightarrow>
      (\<exists>r1 s1. run a s = Some (r1, s1) \<and> change_event s1 = change_event s)) \<and>
   (read_only a \<and> run a s = Some (r, s') \<longrightarrow> change_event s' = change_event s) \<and>
   (\<not> lock_held s \<longrightarrow>
      (\<exists>y1 g1 s1. anext g s = Some (y1, g1, s1) \<and> change_event s1 = change_event s)) \<and>
   (anext g s = Some (y, g', s') \<longrightarrow> change_event s' = change_event s) \<and>
   (\<not> lock_held s \<longrightarrow> (\<exists>r1 s1. scoped body s = Some (r1, s1) \<and> change_event s1)) \<and>
   (scoped body s = Some (r, s') \<longrightarrow> change_event s')"
proof -
  have a: "\<not> lock_held s \<and> mutating a \<and> succeeds_on a s \<longrightarrow>
      (\<exists>v1 s1. run a s = Some (Inr v1, s1) \<and> change_event s1)"
    using mutating_returns [of s a] by blast
  have b: "mutating a \<and> run a s = Some (Inr v, s') \<longrightarrow> change_event s'"
    using mutating_sets_event [of a s v s'] by blast
  have c: "\<not> lock_held s \<and> read_only a \<longrightarrow>
      (\<exists>r1 s1. run a s = Some (r1, s1) \<and> change_event s1 = change_event s)"
    using read_only_returns [of s a] read_only_keeps_event [of a s] by blast
  have d: "read_only a \<and> run a s = Some (r, s') \<longrightarrow> change_event s' = change_event s"
    using read_only_keeps_event [of a s r s'] by blast
  have e: "\<not> lock_held s \<longrightarrow>
      (\<exists>y1 g1 s1. anext g s = Some (y1, g1, s1) \<and> change_event s1 = change_event s)"
    using anext_returns [of s g] anext_keeps_event [of g s] by blast
  have f: "anext g s = Some (y, g', s') \<longrightarrow> change_event s' = change_event s"
    using anext_keeps_event [of g s y g' s'] by blast
  have g: "\<not> lock_held s \<longrightarrow> (\<exists>r1 s1. scoped body s = Some (r1, s1) \<and> change_event s1)"
    using scoped_returns [of s body] scoped_sets_event [of body s] by blast
  have h: "scoped body s = Some (r, s') \<longrightarrow> change_event s'"
    using scoped_sets_event [of body s r s'] by blast
  from a b c d e f g h show ?thesis by blast
qed

theorem change_signal_discipline_witness:
  "(\<exists>v s'. run (Append 4 :: (int, int) op) (container_of [1, 2, 3]) = Some (Inr v, s') \<and>
         change_event s') \<and>
   (\<exists>v s'. run (Clear :: (int, int) op) (container_of [1, 2, 3]) = Some (Inr v, s') \<and>
         change_event s') \<and>
   (\<exists>v s'. run (Reverse :: (int, int) op) (container_of [1, 2, 3]) = Some (Inr v, s') \<and>
         change_event s') \<and>
   (\<exists>v s'. run (Sort id False :: (int, int) op) (container_of [1, 2, 3]) = Some (Inr v, s') \<and>
         change_event s') \<and>
   (\<exists>v s'. run (Pop (- 1) :: (int, int) op) (container_of [1, 2, 3]) = Some (Inr v, s') \<and>
         change_event s') \<and>
   (\<exists>r s'. run (Get 0 :: (int, int) op) (container_of [1, 2, 3]) = Some (r, s') \<and>
         change_event s' = change_event (container_of [1, 2, 3 :: int])) \<and>
   (\<exists>y g' s'. anext NotStarted (container_of [1, 2, 3 :: int]) = Some (y, g', s') \<and>
         change_event s' = change_event (container_of [1, 2, 3 :: int])) \<and>
   (\<exists>r s'. scoped (\<lambda>xs. (Inr VNone, xs)) (container_of [1, 2, 3 :: int]) = Some (r, s') \<and>
         change_event s')"
proof -
  let ?c = "container_of [1, 2, 3 :: int]"
  note free = container_of_free [of "[1, 2, 3 :: int]"]
  have pre: "succeeds_on (Pop (- 1) :: (int, int) op) ?c"
    by (simp add: items_of_container_of fits_ssize_def)
  from change_signal_discipline [where a = "Append 4 :: (int, int) op" and s = ?c] free
  have a: "\<exists>v s'. run (Append 4 :: (int, int) op) ?c = Some (Inr v, s') \<and> change_event s'"
    by simp
  from change_signal_discipline [where a = "Clear :: (int, int) op" and s = ?c] free
  have b: "\<exists>v s'. run (Clear :: (int, int) op) ?c = Some (Inr v, s') \<and> change_event s'"
    by simp
  from change_signal_discipline [where a = "Reverse :: (int, int) op" and s = ?c] free
  have c: "\<exists>v s'. run (Reverse :: (int, int) op) ?c = Some (Inr v, s') \<and> change_event s'"
    by simp
  from change_signal_discipline [where a = "Sort id False :: (int, int) op" and s = ?c] free
  have d: "\<exists>v s'. run (Sort id False :: (int, int) op) ?c = Some (Inr v, s') \<and>
      change_event s'"
    by simp
  from change_signal_discipline [where a = "Pop (- 1) :: (int, int) op" and s = ?c] free pre
  have e: "\<exists>v s'. run (Pop (- 1) :: (int, int) op) ?c = Some (Inr v, s') \<and> change_event s'"
    by simp
  from change_signal_discipline [where a = "Get 0 :: (int, int) op" and s = ?c] free
  have f: "\<exists>r s'. run (Get 0 :: (int, int) op) ?c = Some (r, s') \<and>
      change_event s' = change_event ?c"
    by simp
  from change_signal_discipline
    [where a = "Get 0 :: (int, int) op" and s = ?c and g = NotStarted] free
  have g: "\<exists>y g' s'. anext NotStarted ?c = Some (y, g', s') \<and>
      change_event s' = change_event ?c"
    by simp
  from change_signal_discipline
    [where a = "Get 0 :: (int, int) op" and s = ?c and body = "\<lambda>xs. (Inr VNone, xs)"] free
  have h: "\<exists>r s'. scoped (\<lambda>xs. (Inr VNone, xs)) ?c = Some (r, s') \<and> change_event s'"
    by simp
  from a b c d e f g h show ?thesis by blast
qed

section \<open>Asynchronous iteration over a snapshot\<close>

lemma run_frame:
  "a < fresh s \<Longrightarrow> a \<noteq> items s \<Longrightarrow> items s < fresh s \<Longrightarrow> run b s = Some (r, s') \<Longrightarrow>
   a < fresh s' \<and> a \<noteq> items s' \<and> items s' < fresh s' \<and> store s' a = store s a"
  by (cases b)
    (auto simp: append_al_def extend_def insert_al_def remove_al_def pop_def clear_def
      reverse_def sort_al_def delete_all_def get_def length_al_def is_empty_def count_def
      contains_def index_def slice_def aenter_def aexit_def
      alloc_def event_set_def event_set_if_clear_def set_items_def
      dest!: with_lock_Some split: sum.splits prod.splits if_splits option.splits)

lemma apply_op_frame:
  "a < fresh s \<Longrightarrow> a \<noteq> items s \<Longrightarrow> items s < fresh s \<Longrightarrow>
   a < fresh (apply_op b s) \<and> a \<noteq> items (apply_op b s) \<and>
   items (apply_op b s) < fresh (apply_op b s) \<and> store (apply_op b s) a = store s a"
  using run_frame [of a s b]
  by (cases "run b s") (auto simp: apply_op_def)

lemma apply_ops_frame:
  "a < fresh s \<Longrightarrow> a \<noteq> items s \<Longrightarrow> items s < fresh s \<Longrightarrow>
   a < fresh (apply_ops bs s) \<and> a \<noteq> items (apply_ops bs s) \<and>
   items (apply_ops bs s) < fresh (apply_ops bs s) \<and> store (apply_ops bs s) a = store s a"
proof (induction bs arbitrary: s)
  case Nil
  then show ?case by (simp add: apply_ops_def)
next
  case (Cons b bs)
  from apply_op_frame [OF Cons.prems, of b]
  have step: "a < fresh (apply_op b s)" "a \<noteq> items (apply_op b s)"
    "items (apply_op b s) < fresh (apply_op b s)" "store (apply_op b s) a = store s a"
    by simp_all
  from Cons.IH [OF step(1-3)] step(4)
  show ?case by (simp add: apply_ops_def)
qed

lemma aiter_run_iterating:
  "a < fresh s \<Longrightarrow> a \<noteq> items s \<Longrightarrow> items s < fresh s \<Longrightarrow> k \<le> length (store s a) \<Longrightarrow>
   length (store s a) - k < length sched \<Longrightarrow>
   \<exists>s'. aiter_run (Iterating a k) sched s = Some (drop k (store s a), s')"
proof (induction sched arbitrary: k s)
  case Nil
  then show ?case by simp
next
  case (Cons others sched)
  show ?case
  proof (cases "k < length (store s a)")
    case False
    with Cons.prems show ?thesis
      by (simp add: anext_def fetch_def)
  next
    case True
    let ?s = "apply_ops others s"
    from apply_ops_frame [OF Cons.prems(1-3), of others]
    have fr: "a < fresh ?s" "a \<noteq> items ?s" "items ?s < fresh ?s" "store ?s a = store s a"
      by simp_all
    from True fr(4) have k: "Suc k \<le> length (store ?s a)" by simp
    from Cons.prems(5) True fr(4) have "length (store ?s a) - Suc k < length sched"
      by simp
    from Cons.IH [OF fr(1-3) k this] fr(4) obtain s' where
      "aiter_run (Iterating a (Suc k)) sched ?s = Some (drop (Suc k) (store s a), s')"
      by auto
    with True show ?thesis
      by (simp add: anext_def fetch_def Cons_nth_drop_Suc)
  qed
qed

lemma aiter_run_start:
  "\<not> lock_held s \<Longrightarrow>
   aiter_run NotStarted sched s =
   aiter_run (Iterating (fresh s) 0) sched
     (s\<lparr>store := (store s)(fresh s := items_of s), fresh := Suc (fresh s),
        lock_held := False\<rparr>)"
  by (cases sched) (simp_all add: anext_def with_lock_def alloc_def)

lemma anext_frame:
  "items s < fresh s \<Longrightarrow> anext g s = Some (y, g', s') \<Longrightarrow>
   items s' = items s \<and> items_of s' = items_of s \<and> change_event s' = change_event s"
  by (cases g)
    (auto simp: anext_def fetch_def alloc_def items_of_def
      dest!: with_lock_Some split: option.splits prod.splits if_splits)

lemma anext_waits: "lock_held s \<Longrightarrow> anext NotStarted s = None"
  by (simp add: anext_def with_lock_def)

lemma aiter_run_waits: "lock_held s \<Longrightarrow> aiter_run NotStarted sched s = None"
  by (cases sched) (simp_all add: anext_waits)

text \<open>
  C4. The iteration runs over a container whose list object exists. Its first step
  takes the snapshot under the lock: while the lock is held by another task the step
  waits and nothing is yielded. Started on a free lock, whatever the other tasks do to
  the container between its steps (\<open>sched\<close>, with room for every element and the final
  step), the iteration yields the elements the sequence had at the start, in order: the
  steps read a copy that no operation of the container reaches. A step of the iteration
  leaves the sequence and the change signal as they are.
\<close>

theorem aiter_yields_snapshot:
  "items s < fresh s \<Longrightarrow> length (items_of s) < length sched \<Longrightarrow>
   (\<not> lock_held s \<longrightarrow> (\<exists>s'. aiter_run NotStarted sched s = Some (items_of s, s'))) \<and>
   (lock_held s \<longrightarrow> anext NotStarted s = None \<and> aiter_run NotStarted sched s = None) \<and>
   (anext g s = Some (y, g', s1) \<longrightarrow>
      items s1 = items s \<and> items_of s1 = items_of s \<and> change_event s1 = change_event s)"
proof -
  assume wf: "items s < fresh s" and len: "length (items_of s) < length sched"
  let ?s = "s\<lparr>store := (store s)(fresh s := items_of s), fresh := Suc (fresh s),
              lock_held := False\<rparr>"
  have a: "\<not> lock_held s \<longrightarrow> (\<exists>s'. aiter_run NotStarted sched s = Some (items_of s, s'))"
  proof
    assume free: "\<not> lock_held s"
    have snap: "store ?s (fresh s) = items_of s" by simp
    from wf have "fresh s < fresh ?s" "fresh s \<noteq> items ?s" "items ?s < fresh ?s"
      by simp_all
    from aiter_run_iterating [OF this, of 0 sched] len snap
    have "\<exists>s'. aiter_run (Iterating (fresh s) 0) sched ?s = Some (items_of s, s')"
      by simp
    with aiter_run_start [OF free, of sched]
    show "\<exists>s'. aiter_run NotStarted sched s = Some (items_of s, s')" by simp
  qed
  have b: "lock_held s \<longrightarrow> anext NotStarted s = None \<and> aiter_run NotStarted sched s = None"
    using anext_waits [of s] aiter_run_waits [of s sched] by blast
  have c: "anext g s = Some (y, g', s1) \<longrightarrow>
      items s1 = items s \<and> items_of s1 = items_of s \<and> change_event s1 = change_event s"
    using anext_frame [OF wf, of g y g' s1] by blast
  from a b c show ?thesis by blast
qed

theorem aiter_yields_snapshot_witness:
  "(\<exists>s'. aiter_run NotStarted [[], [Append 4 :: (int, int) op], [], []]
           (container_of [1, 2, 3 :: int]) = Some ([1, 2, 3], s') \<and>
         items_of s' = [1, 2, 3, 4]) \<and>
   anext NotStarted ((container_of [1, 2, 3 :: int])\<lparr>lock_held := True\<rparr>) = None \<and>
   aiter_run NotStarted [[], [Append 4 :: (int, int) op], [], []]
     ((container_of [1, 2, 3 :: int])\<lparr>lock_held := True\<rparr>) = None \<and>
   (\<exists>g' s1. anext NotStarted (container_of [1, 2, 3 :: int]) = Some (Some 1, g', s1) \<and>
         items_of s1 = [1, 2, 3] \<and> \<not> change_event s1)"
proof -
  let ?c = "container_of [1, 2, 3 :: int]"
  let ?h = "(container_of [1, 2, 3 :: int])\<lparr>lock_held := True\<rparr>"
  let ?sched = "[[], [Append 4 :: (int, int) op], [], []]"
  have wf: "items ?c < fresh ?c" by (simp add: container_of_def)
  have len: "length (items_of ?c) < length ?sched" by (simp add: items_of_container_of)
  have wfh: "items ?h < fresh ?h" by (simp add: container_of_def)
  have lenh: "length (items_of ?h) < length ?sched" by (simp add: items_of_container_of)
  obtain g' s1 where step: "anext NotStarted ?c = Some (Some 1, g', s1)"
    by (simp add: anext_def with_lock_def container_of_def items_of_def alloc_def fetch_def)
  note t = aiter_yields_snapshot [OF wf len, of NotStarted "Some 1" g' s1]
  note u = aiter_yields_snapshot [OF wfh lenh, of NotStarted "Some 1" g' s1]
  from t container_of_free [of "[1, 2, 3 :: int]"]
  obtain s' where run: "aiter_run NotStarted ?sched ?c = Some ([1, 2, 3], s')"
    by (auto simp: items_of_container_of)
  then have "items_of s' = [1, 2, 3, 4]"
    by (auto simp: anext_def with_lock_def alloc_def fetch_def container_of_def items_of_def
        apply_ops_def apply_op_def append_al_def set_items_def event_set_if_clear_def
        event_set_def)
  with run have a: "\<exists>s'. aiter_run NotStarted ?sched ?c = Some ([1, 2, 3], s') \<and>
         items_of s' = [1, 2, 3, 4]" by blast
  have held: "lock_held ?h" by simp
  from u [THEN conjunct2, THEN conjunct1] held
  have w: "anext NotStarted ?h = None \<and> aiter_run NotStarted ?sched ?h = None"
    by blast
  have ce: "\<not> change_event ?c" by (simp add: container_of_def)
  from t [THEN conjunct2, THEN conjunct2] step ce
  have "items_of s1 = [1, 2, 3] \<and> \<not> change_event s1"
    by (simp add: items_of_container_of)
  with step have b: "\<exists>g' s1. anext NotStarted ?c = Some (Some 1, g', s1) \<and>
         items_of s1 = [1, 2, 3] \<and> \<not> change_event s1" by blast
  from a w b show ?thesis by blast
qed

section \<open>Waiting for a change\<close>

lemma apply_ops_Cons: "apply_ops (a # as) s = apply_ops as (apply_op a s)"
  by (simp add: apply_ops_def)

lemma apply_ops_Nil: "apply_ops [] s = s"
  by (simp add: apply_ops_def)

lemma event_wait_Inr:
  "event_wait t turns s = Some (Inr b, rest, s') \<Longrightarrow> (\<And>d. t = Some d \<Longrightarrow> 0 \<le> d) \<Longrightarrow>
   b \<and> change_event s' \<and>
   (\<exists>k\<le>length turns. (\<forall>d. t = Some d \<longrightarrow> int k \<le> d) \<and>
      change_event (apply_ops (take k turns) s))"
proof (induction turns arbitrary: t s)
  case Nil
  then show ?case
    by (auto simp: apply_ops_Nil split: if_splits option.splits)
next
  case (Cons a turns)
  show ?case
  proof (cases "change_event s")
    case True
    with Cons.prems(1) have "b \<and> change_event s'" by auto
    moreover from True Cons.prems(2)
    have "0 \<le> length (a # turns) \<and> (\<forall>d. t = Some d \<longrightarrow> int 0 \<le> d) \<and>
          change_event (apply_ops (take 0 (a # turns)) s)"
      by (simp add: apply_ops_Nil)
    ultimately show ?thesis by blast
  next
    case False
    show ?thesis
    proof (cases t)
      case None
      with False Cons.prems(1)
      have "event_wait None turns (apply_op a s) = Some (Inr b, rest, s')" by simp
      from Cons.IH [OF this] obtain k where
        "b" "change_event s'" "k \<le> length turns"
        "change_event (apply_ops (take k turns) (apply_op a s))"
        by auto
      with None have "b \<and> change_event s' \<and> Suc k \<le> length (a # turns) \<and>
          (\<forall>d. t = Some d \<longrightarrow> int (Suc k) \<le> d) \<and>
          change_event (apply_ops (take (Suc k) (a # turns)) s)"
        by (simp add: apply_ops_Cons)
      then show ?thesis by blast
    next
      case (Some d)
      with False Cons.prems(1) have pos: "0 < d"
        and run: "event_wait (Some (d - 1)) turns (apply_op a s) = Some (Inr b, rest, s')"
        by (auto split: if_splits)
      from pos have "\<And>d'. Some (d - 1) = Some d' \<Longrightarrow> 0 \<le> d'" by auto
      from Cons.IH [OF run this] obtain k where
        "b" "change_event s'" "k \<le> length turns" "int k \<le> d - 1"
        "change_event (apply_ops (take k turns) (apply_op a s))"
        by auto
      with Some have "b \<and> change_event s' \<and> Suc k \<le> length (a # turns) \<and>
          (\<forall>d. t = Some d \<longrightarrow> int (Suc k) \<le> d) \<and>
          change_event (apply_ops (take (Suc k) (a # turns)) s)"
        by (simp add: apply_ops_Cons)
      then show ?thesis by blast
    qed
  qed
qed

lemma event_wait_not_Inr:
  "event_wait t turns s = None \<or> event_wait t turns s = Some (Inl e, rest, s') \<Longrightarrow>
   (\<And>d. t = Some d \<Longrightarrow> 0 \<le> d) \<Longrightarrow> k \<le> length turns \<Longrightarrow>
   (\<And>d. t = Some d \<Longrightarrow> int k \<le> d) \<Longrightarrow>
   \<not> change_event (apply_ops (take k turns) s)"
proof (induction turns arbitrary: t s k)
  case Nil
  then show ?case
    by (auto simp: apply_ops_Nil split: if_splits option.splits)
next
  case (Cons a turns)
  from Cons.prems(1) have clear: "\<not> change_event s"
    by (auto split: if_splits)
  show ?case
  proof (cases k)
    case 0
    with clear show ?thesis by (simp add: apply_ops_Nil)
  next
    case (Suc j)
    with Cons.prems(3) have j: "j \<le> length turns" by simp
    show ?thesis
    proof (cases t)
      case None
      with clear Cons.prems(1)
      have "event_wait None turns (apply_op a s) = None \<or>
            event_wait None turns (apply_op a s) = Some (Inl e, rest, s')"
        by simp
      from Cons.IH [OF this _ j] Suc show ?thesis
        by (simp add: apply_ops_Cons)
    next
      case (Some d)
      with Cons.prems(4) Suc have "int (Suc j) \<le> d" by simp
      then have pos: "0 < d" and jd: "int j \<le> d - 1" by simp_all
      with Some clear Cons.prems(1)
      have "event_wait (Some (d - 1)) turns (apply_op a s) = None \<or>
            event_wait (Some (d - 1)) turns (apply_op a s) = Some (Inl e, rest, s')"
        by simp
      from Cons.IH [OF this _ j] pos jd Suc show ?thesis
        by (simp add: apply_ops_Cons)
    qed
  qed
qed

lemma event_wait_Inl:
  "event_wait t turns s = Some (Inl e, rest, s') \<Longrightarrow>
   e = TimeoutError \<and> \<not> change_event s' \<and> t \<noteq> None"
  by (induction turns arbitrary: t s) (auto split: if_splits option.splits)

lemma event_wait_None: "event_wait t turns s = None \<Longrightarrow> t = None"
  by (induction turns arbitrary: t s) (auto split: if_splits option.splits)

lemma read_only_apply_op:
  "read_only a \<Longrightarrow> change_event (apply_op a s) = change_event s"
  using read_only_keeps_event [of a s]
  by (cases "run a s") (auto simp: apply_op_def)

lemma read_only_apply_ops:
  "\<forall>a\<in>set as. read_only a \<Longrightarrow> change_event (apply_ops as s) = change_event s"
  by (induction as arbitrary: s) (simp_all add: apply_ops_Nil apply_ops_Cons read_only_apply_op)

lemma wait_for_Inl:
  "wait_for timeout turns s = Some (Inl e, rest, s') \<Longrightarrow> e = TimeoutError \<and> timeout \<noteq> None"
  by (auto simp: wait_for_def split: option.splits if_splits dest: event_wait_Inl)

lemma wait_for_None: "wait_for timeout turns s = None \<Longrightarrow> timeout = None"
  by (auto simp: wait_for_def split: option.splits if_splits dest: event_wait_None)

lemma wait_for_Inr:
  "wait_for timeout turns s = Some (Inr b, rest, s') \<Longrightarrow>
   (\<forall>d. timeout = Some d \<longrightarrow> 0 < d) \<and>
   (\<exists>k\<le>length turns. (\<forall>d. timeout = Some d \<longrightarrow> int k \<le> d) \<and>
      change_event (apply_ops (take k turns) s))"
proof (cases timeout)
  case None
  assume "wait_for timeout turns s = Some (Inr b, rest, s')"
  with None have "event_wait None turns s = Some (Inr b, rest, s')"
    by (simp add: wait_for_def)
  from event_wait_Inr [OF this] None show ?thesis by simp
next
  case (Some d)
  assume "wait_for timeout turns s = Some (Inr b, rest, s')"
  with Some have pos: "0 < d" and run: "event_wait (Some d) turns s = Some (Inr b, rest, s')"
    by (auto simp: wait_for_def split: if_splits)
  from pos have "\<And>d'. Some d = Some d' \<Longrightarrow> 0 \<le> d'" by auto
  from event_wait_Inr [OF run this] Some pos show ?thesis by simp
qed

lemma wait_for_not_Inr:
  "wait_for timeout turns s = None \<or> wait_for timeout turns s = Some (Inl e, rest, s') \<Longrightarrow>
   \<forall>d. timeout = Some d \<longrightarrow> 0 < d \<Longrightarrow> k \<le> length turns \<Longrightarrow>
   \<forall>d. timeout = Some d \<longrightarrow> int k \<le> d \<Longrightarrow>
   \<not> change_event (apply_ops (take k turns) s)"
proof -
  assume res: "wait_for timeout turns s = None \<or>
      wait_for timeout turns s = Some (Inl e, rest, s')"
    and pos: "\<forall>d. timeout = Some d \<longrightarrow> 0 < d" and k: "k \<le> length turns"
    and within: "\<forall>d. timeout = Some d \<longrightarrow> int k \<le> d"
  from res pos have "event_wait timeout turns s = None \<or>
      event_wait timeout turns s = Some (Inl e, rest, s')"
    by (cases timeout) (auto simp: wait_for_def split: if_splits)
  from event_wait_not_Inr [OF this _ k] pos within show ?thesis
    by (cases timeout) auto
qed

lemma quiet_wait:
  "\<not> change_event s \<Longrightarrow> \<forall>a\<in>set quiet. read_only a \<Longrightarrow>
   wait_for_change None quiet s = None \<and>
   (\<exists>rest s'. wait_for_change (Some d) quiet s = Some (Inr (VBool False), rest, s'))"
proof -
  assume clear: "\<not> change_event s" and quiet: "\<forall>a\<in>set quiet. read_only a"
  have still: "\<not> change_event (apply_ops (take k quiet) s)" for k
  proof -
    from quiet have "\<forall>a\<in>set (take k quiet). read_only a"
      by (meson in_set_takeD)
    from read_only_apply_ops [OF this] clear show ?thesis by simp
  qed
  have no_Inr: "wait_for t quiet s \<noteq> Some (Inr b, rest, s')" for t b rest s'
    using wait_for_Inr [of t quiet s b rest s'] still by blast
  have a: "wait_for_change None quiet s = None"
  proof (cases "wait_for None quiet s")
    case None
    then show ?thesis by (simp add: wait_for_change_def)
  next
    case (Some res)
    obtain r rest s' where res: "res = (r, rest, s')" by (cases res) auto
    with Some no_Inr wait_for_Inl [of None quiet s _ rest s'] show ?thesis
      by (cases r) auto
  qed
  have b: "\<exists>rest s'. wait_for_change (Some d) quiet s = Some (Inr (VBool False), rest, s')"
  proof (cases "wait_for (Some d) quiet s")
    case None
    from wait_for_None [OF this] show ?thesis by simp
  next
    case (Some res)
    obtain r rest s' where res: "res = (r, rest, s')" by (cases res) auto
    show ?thesis
    proof (cases r)
      case (Inl e)
      with Some res wait_for_Inl [of "Some d" quiet s e rest s'] show ?thesis
        by (simp add: wait_for_change_def)
    next
      case (Inr b)
      with Some res no_Inr show ?thesis by simp
    qed
  qed
  from a b show ?thesis ..
qed

lemma event_wait_state:
  "event_wait t turns s = Some (r, rest, s') \<Longrightarrow>
   \<exists>k\<le>length turns. s' = apply_ops (take k turns) s \<and> rest = drop k turns"
proof (induction turns arbitrary: t s)
  case Nil
  then show ?case
    by (auto simp: apply_ops_Nil split: if_splits option.splits)
next
  case (Cons a turns)
  show ?case
  proof (cases "event_wait t (a # turns) s = Some (r, a # turns, s)")
    case True
    with Cons.prems have "0 \<le> length (a # turns) \<and> s' = apply_ops (take 0 (a # turns)) s \<and>
        rest = drop 0 (a # turns)"
      by (simp add: apply_ops_Nil)
    then show ?thesis by blast
  next
    case False
    with Cons.prems obtain t' where
      "event_wait t' turns (apply_op a s) = Some (r, rest, s')"
      by (auto split: if_splits option.splits)
    from Cons.IH [OF this] obtain k where
      "k \<le> length turns" "s' = apply_ops (take k turns) (apply_op a s)" "rest = drop k turns"
      by blast
    then have "Suc k \<le> length (a # turns) \<and> s' = apply_ops (take (Suc k) (a # turns)) s \<and>
        rest = drop (Suc k) (a # turns)"
      by (simp add: apply_ops_Cons)
    then show ?thesis by blast
  qed
qed

lemma wait_for_state:
  "wait_for timeout turns s = Some (r, rest, s') \<Longrightarrow>
   \<exists>k\<le>length turns. s' = apply_ops (take k turns) s \<and> rest = drop k turns"
proof (cases "wait_for timeout turns s = event_wait timeout turns s")
  case True
  assume "wait_for timeout turns s = Some (r, rest, s')"
  with True event_wait_state [of timeout turns s r rest s'] show ?thesis by simp
next
  case False
  assume "wait_for timeout turns s = Some (r, rest, s')"
  with False have "0 \<le> length turns \<and> s' = apply_ops (take 0 turns) s \<and> rest = drop 0 turns"
    by (auto simp: wait_for_def apply_ops_Nil split: option.splits if_splits)
  then show ?thesis by blast
qed

lemma wait_for_change_state:
  "wait_for_change timeout turns s = Some (r, rest, s') \<Longrightarrow>
   \<exists>k\<le>length turns. s' = event_clear (apply_ops (take k turns) s) \<and> rest = drop k turns"
proof -
  assume run: "wait_for_change timeout turns s = Some (r, rest, s')"
  then obtain r0 s0 where "wait_for timeout turns s = Some (r0, rest, s0)" "s' = event_clear s0"
    by (auto simp: wait_for_change_def split: option.splits sum.splits prod.splits if_splits)
  with wait_for_state [of timeout turns s r0 rest s0] show ?thesis by blast
qed

text \<open>
  What \<^verbatim>\<open>wait_for_change\<close> does, for every timeout and every schedule of the other
  tasks. It never raises, and with a timeout it always returns. With a timeout of zero or
  less it returns False at once and clears the signal. With no timeout or a positive
  one, it returns True whenever the signal is set at the call or after one of the turns
  of the other tasks that fit in the timeout. When it returns, the state is the one the
  other tasks have made by then with the change signal cleared, and the result is a
  boolean: True exactly in the case just described. An immediate second call, during
  which the other tasks only read, does not return without a timeout and returns False
  with one. (Cancellation of the calling task is outside the model.)
\<close>

lemma wait_for_change_outcome:
  "wait_for_change timeout turns s \<noteq> Some (Inl e, rest, s') \<and>
   (timeout \<noteq> None \<longrightarrow> wait_for_change timeout turns s \<noteq> None) \<and>
   (timeout = Some d0 \<and> d0 \<le> 0 \<longrightarrow>
      wait_for_change timeout turns s = Some (Inr (VBool False), turns, event_clear s)) \<and>
   ((\<forall>d. timeout = Some d \<longrightarrow> 0 < d) \<and>
    (\<exists>k\<le>length turns. (\<forall>d. timeout = Some d \<longrightarrow> int k \<le> d) \<and>
       change_event (apply_ops (take k turns) s)) \<longrightarrow>
      (\<exists>rest1 s1. wait_for_change timeout turns s = Some (Inr (VBool True), rest1, s1))) \<and>
   (wait_for_change timeout turns s = Some (Inr v, rest, s') \<longrightarrow>
      \<not> change_event s' \<and>
      (\<exists>k\<le>length turns. s' = event_clear (apply_ops (take k turns) s) \<and>
         rest = drop k turns) \<and>
      (v = VBool True \<or> v = VBool False) \<and>
      ((v = VBool True) =
         ((\<forall>d. timeout = Some d \<longrightarrow> 0 < d) \<and>
          (\<exists>k\<le>length turns. (\<forall>d. timeout = Some d \<longrightarrow> int k \<le> d) \<and>
             change_event (apply_ops (take k turns) s)))) \<and>
      ((\<forall>a\<in>set quiet. read_only a) \<longrightarrow>
         wait_for_change None quiet s' = None \<and>
         (\<exists>rest' s''. wait_for_change (Some d') quiet s' = Some (Inr (VBool False), rest', s''))))"
proof (intro conjI impI)
  show "wait_for_change timeout turns s \<noteq> Some (Inl e, rest, s')"
    by (auto simp: wait_for_change_def split: option.splits sum.splits prod.splits
        dest: wait_for_Inl)
next
  assume "timeout \<noteq> None"
  with wait_for_None [of timeout turns s] have "wait_for timeout turns s \<noteq> None"
    by blast
  then obtain r rest0 s0 where "wait_for timeout turns s = Some (r, rest0, s0)"
    by (cases "wait_for timeout turns s") auto
  then show "wait_for_change timeout turns s \<noteq> None"
    by (cases r) (simp_all add: wait_for_change_def)
next
  assume "timeout = Some d0 \<and> d0 \<le> 0"
  then show "wait_for_change timeout turns s = Some (Inr (VBool False), turns, event_clear s)"
    by (simp add: wait_for_change_def wait_for_def)
next
  assume "(\<forall>d. timeout = Some d \<longrightarrow> 0 < d) \<and>
    (\<exists>k\<le>length turns. (\<forall>d. timeout = Some d \<longrightarrow> int k \<le> d) \<and>
       change_event (apply_ops (take k turns) s))"
  then obtain k where pos: "\<forall>d. timeout = Some d \<longrightarrow> 0 < d" and k: "k \<le> length turns"
    and within: "\<forall>d. timeout = Some d \<longrightarrow> int k \<le> d"
    and set: "change_event (apply_ops (take k turns) s)"
    by blast
  show "\<exists>rest1 s1. wait_for_change timeout turns s = Some (Inr (VBool True), rest1, s1)"
  proof (cases "wait_for timeout turns s")
    case None
    then have "wait_for timeout turns s = None \<or>
        wait_for timeout turns s = Some (Inl TimeoutError, turns, s)" by simp
    from wait_for_not_Inr [OF this pos k within] set show ?thesis by simp
  next
    case (Some res)
    obtain r0 rest0 s0 where res: "res = (r0, rest0, s0)" by (cases res) auto
    show ?thesis
    proof (cases r0)
      case (Inl e0)
      with Some res have "wait_for timeout turns s = None \<or>
          wait_for timeout turns s = Some (Inl e0, rest0, s0)" by simp
      from wait_for_not_Inr [OF this pos k within] set show ?thesis by simp
    next
      case (Inr b)
      with Some res show ?thesis by (simp add: wait_for_change_def)
    qed
  qed
next
  assume "wait_for_change timeout turns s = Some (Inr v, rest, s')"
  then show "\<not> change_event s'"
    by (auto simp: wait_for_change_def event_clear_def
        split: option.splits sum.splits prod.splits if_splits)
next
  assume "wait_for_change timeout turns s = Some (Inr v, rest, s')"
  from wait_for_change_state [OF this]
  show "\<exists>k\<le>length turns. s' = event_clear (apply_ops (take k turns) s) \<and>
         rest = drop k turns" .
next
  assume "wait_for_change timeout turns s = Some (Inr v, rest, s')"
  then show "v = VBool True \<or> v = VBool False"
    by (auto simp: wait_for_change_def split: option.splits sum.splits prod.splits if_splits)
next
  assume run: "wait_for_change timeout turns s = Some (Inr v, rest, s')"
  show "(v = VBool True) =
         ((\<forall>d. timeout = Some d \<longrightarrow> 0 < d) \<and>
          (\<exists>k\<le>length turns. (\<forall>d. timeout = Some d \<longrightarrow> int k \<le> d) \<and>
             change_event (apply_ops (take k turns) s)))"
  proof (cases "wait_for timeout turns s")
    case None
    with run show ?thesis by (simp add: wait_for_change_def)
  next
    case (Some res)
    obtain r rest0 s0 where res: "res = (r, rest0, s0)" by (cases res) auto
    show ?thesis
    proof (cases r)
      case (Inr b)
      with Some res run have "v = VBool True" by (simp add: wait_for_change_def)
      with wait_for_Inr [of timeout turns s b rest0 s0] Some res Inr show ?thesis
        by simp
    next
      case (Inl e0)
      with Some res run have v: "v = VBool False"
        by (auto simp: wait_for_change_def split: if_splits)
      from Some res Inl have w: "wait_for timeout turns s = None \<or>
          wait_for timeout turns s = Some (Inl e0, rest0, s0)" by simp
      from wait_for_not_Inr [OF w] v show ?thesis by auto
    qed
  qed
next
  assume run: "wait_for_change timeout turns s = Some (Inr v, rest, s')"
    and quiet: "\<forall>a\<in>set quiet. read_only a"
  from run have clear: "\<not> change_event s'"
    by (auto simp: wait_for_change_def event_clear_def
        split: option.splits sum.splits prod.splits if_splits)
  from quiet_wait [OF clear quiet, of d']
  show "wait_for_change None quiet s' = None"
    and "\<exists>rest' s''. wait_for_change (Some d') quiet s' = Some (Inr (VBool False), rest', s'')"
    by blast+
qed

text \<open>
  C3, evaluated where the code fails it. The change signal is set when the call is made.
  With a timeout of zero \<^verbatim>\<open>wait_for_change\<close> returns False and clears the signal, so the
  notification is lost: \<^verbatim>\<open>asyncio.wait_for\<close> with a timeout that is not positive raises
  TimeoutError without starting the wait. With a timeout of one, from the same state, it
  returns True, as its documentation says of a triggered event.
\<close>

theorem wait_for_change_zero_timeout_loses_signal:
  "change_event ((container_of [1 :: int])\<lparr>change_event := True\<rparr>) \<and>
   wait_for_change (Some 0) ([] :: (int, int) op list)
     ((container_of [1 :: int])\<lparr>change_event := True\<rparr>)
   = Some (Inr (VBool False), [], container_of [1]) \<and>
   wait_for_change (Some 1) ([] :: (int, int) op list)
     ((container_of [1 :: int])\<lparr>change_event := True\<rparr>)
   = Some (Inr (VBool True), [], container_of [1])"
  by (simp add: wait_for_change_def wait_for_def event_clear_def container_of_def)

text \<open>An instance of the general statement: the signal becomes set on the second turn,
  within a timeout of two.\<close>

lemma wait_for_change_outcome_example:
  "\<exists>s'. wait_for_change (Some 2) [Get 0, Append 4, Length :: (int, int) op]
          (container_of [1, 2, 3 :: int]) = Some (Inr (VBool True), [Length], s') \<and>
        \<not> change_event s' \<and>
        wait_for_change None [Length :: (int, int) op] s' = None \<and>
        (\<exists>rest' s''. wait_for_change (Some 5) [Length :: (int, int) op] s'
           = Some (Inr (VBool False), rest', s''))"
proof -
  let ?c = "container_of [1, 2, 3 :: int]"
  obtain s' where run:
    "wait_for_change (Some 2) [Get 0, Append 4, Length :: (int, int) op] ?c
       = Some (Inr (VBool True), [Length], s')"
    by (simp add: wait_for_change_def wait_for_def apply_op_def get_def append_al_def
        with_lock_def container_of_def items_of_def set_items_def event_set_if_clear_def
        event_set_def)
  have quiet: "\<forall>a\<in>set [Length :: (int, int) op]. read_only a" by simp
  from wait_for_change_outcome
    [where timeout = "Some 2" and turns = "[Get 0, Append 4, Length :: (int, int) op]"
       and s = ?c and v = "VBool True" and rest = "[Length]" and s' = s'
       and quiet = "[Length :: (int, int) op]" and d' = 5] run quiet
  have "\<not> change_event s' \<and>
        wait_for_change None [Length :: (int, int) op] s' = None \<and>
        (\<exists>rest' s''. wait_for_change (Some 5) [Length :: (int, int) op] s'
           = Some (Inr (VBool False), rest', s''))"
    by blast
  with run show ?thesis by blast
qed

end
